theory Spec2Isabelle
  imports Main "HOL-Library.Sublist"
begin

section \<open>Cyberchess Arena: the move negotiator, the game loop and the archiver\<close>

text \<open>
  A shallow embedding of \<^verbatim>\<open>src/cyberchess.py\<close>. The file defines
  \<^verbatim>\<open>get_gemini_move\<close> twice (lines 49 and 81; the second definition is the one bound
  at run time) and repeats several statements of \<^verbatim>\<open>play_game\<close>. The embedding follows
  the statements that make up the bound functions: for \<^verbatim>\<open>get_gemini_move\<close> the prompt
  of lines 90-102, the retry loop of lines 118-142 and the fallback of lines 145-147; for
  \<^verbatim>\<open>play_game\<close> the set-up of lines 174-191 and the loop of lines 198-233.
  Console output (\<^verbatim>\<open>print\<close>) is not modelled.
\<close>

subsection \<open>Python strings\<close>

text \<open>
  A Python \<^verbatim>\<open>str\<close> is modelled as a \<^typ>\<open>string\<close>; a character is one of the
  code points 0..255. \<^verbatim>\<open>str.strip()\<close> without argument removes leading and trailing
  white space, which among these code points is 9-13, 28-32, 133 and 160.
\<close>

definition isspace :: "char \<Rightarrow> bool" where
  "isspace c = ((of_char c :: nat) \<in> set [9, 10, 11, 12, 13, 28, 29, 30, 31, 32, 133, 160])"

definition strip :: "string \<Rightarrow> string" where
  "strip s = rev (dropWhile isspace (rev (dropWhile isspace s)))"

text \<open>\<^verbatim>\<open>s.replace(old, new)\<close> for a pattern \<open>old\<close> of one character.\<close>

definition replace :: "char \<Rightarrow> string \<Rightarrow> string \<Rightarrow> string" where
  "replace old new s = concat (map (\<lambda>c. if c = old then new else [c]) s)"

text \<open>\<^verbatim>\<open>sep.join(xs)\<close>.\<close>

fun join :: "string \<Rightarrow> string list \<Rightarrow> string" where
  "join sep [] = []"
| "join sep [x] = x"
| "join sep (x # y # ys) = x @ sep @ join sep (y # ys)"

text \<open>\<^verbatim>\<open>xs.index(x)\<close>; \<open>None\<close> stands for the \<^verbatim>\<open>ValueError\<close> of a missing element.\<close>

fun index :: "'a list \<Rightarrow> 'a \<Rightarrow> nat option" where
  "index [] x = None"
| "index (y # ys) x = (if y = x then Some 0 else map_option Suc (index ys x))"

text \<open>
  Lines 121 and 124: the text of the response, stripped, with every newline, every space
  and every backtick removed.
\<close>

definition move_str :: "string \<Rightarrow> string" where
  "move_str text =
     replace (CHR 0x60) [] (replace (CHR '' '') [] (replace (CHR 0x0A) [] (strip text)))"

text \<open>
  The sanitisation in the words of the specification: surrounding white space stripped,
  then every newline, space and backtick dropped, every other character kept.
\<close>

definition sanitize_spec :: "string \<Rightarrow> string" where
  "sanitize_spec raw = filter (\<lambda>c. c \<notin> {CHR 0x0A, CHR '' '', CHR 0x60}) (strip raw)"

subsection \<open>Moves and their coordinate notation\<close>

text \<open>
  \<^verbatim>\<open>chess.Move\<close>: squares are numbered 0..63 (a1 = 0, b1 = 1, ..., h8 = 63), piece types
  1..6 (pawn, knight, bishop, rook, queen, king).
\<close>

record move =
  from_square :: nat
  to_square :: nat
  promotion :: "nat option"
  drop :: "nat option"

definition FILE_NAMES :: string where
  "FILE_NAMES = ''abcdefgh''"

definition RANK_NAMES :: string where
  "RANK_NAMES = ''12345678''"

definition SQUARE_NAMES :: "string list" where
  "SQUARE_NAMES = concat (map (\<lambda>r. map (\<lambda>f. [f, r]) FILE_NAMES) RANK_NAMES)"

definition PIECE_SYMBOLS :: "char option list" where
  "PIECE_SYMBOLS = [None, Some CHR ''p'', Some CHR ''n'', Some CHR ''b'', Some CHR ''r'',
     Some CHR ''q'', Some CHR ''k'']"

definition lower :: "char \<Rightarrow> char" where
  "lower c = (if (65::nat) \<le> of_char c \<and> of_char c \<le> (90::nat)
     then char_of (of_char c + (32::nat)) else c)"

definition upper :: "char \<Rightarrow> char" where
  "upper c = (if (97::nat) \<le> of_char c \<and> of_char c \<le> (122::nat)
     then char_of (of_char c - (32::nat)) else c)"

text \<open>
  Modelled from the spec: \<^verbatim>\<open>chess.Move.from_uci\<close> and \<^verbatim>\<open>chess.Move.uci\<close> belong
  to the python-chess library, which is not under \<^verbatim>\<open>src/\<close>. The specification gives the canonical
  notation as 4-5 ASCII characters: source square, destination square, optional promotion
  letter. The model follows the library's parser: \<^verbatim>\<open>0000\<close> is the null move, a piece
  letter followed by \<^verbatim>\<open>@\<close> and a square is a drop, a square is a file letter a-h followed
  by a rank digit 1-8, and equal source and destination squares are rejected. \<open>None\<close>
  stands for the \<^verbatim>\<open>InvalidMoveError\<close> the parser raises. \<^verbatim>\<open>uci\<close> is applied to
  moves of the library only, whose squares are below 64 and whose piece types are 1..6.
\<close>

definition from_uci :: "string \<Rightarrow> move option" where
  "from_uci uci =
     (if uci = ''0000'' then
        Some \<lparr>from_square = 0, to_square = 0, promotion = None, drop = None\<rparr>
      else if length uci = 4 \<and> uci ! 1 = CHR ''@'' then
        (case index PIECE_SYMBOLS (Some (lower (uci ! 0))) of
           None \<Rightarrow> None
         | Some d \<Rightarrow>
             (case index SQUARE_NAMES (List.drop 2 uci) of
                None \<Rightarrow> None
              | Some square \<Rightarrow>
                  Some \<lparr>from_square = square, to_square = square, promotion = None,
                        drop = Some d\<rparr>))
      else if 4 \<le> length uci \<and> length uci \<le> 5 then
        (case index SQUARE_NAMES (take 2 uci) of
           None \<Rightarrow> None
         | Some f \<Rightarrow>
             (case index SQUARE_NAMES (take 2 (List.drop 2 uci)) of
                None \<Rightarrow> None
              | Some t \<Rightarrow>
                  (case (if length uci = 5
                         then map_option Some (index PIECE_SYMBOLS (Some (uci ! 4)))
                         else Some None) of
                     None \<Rightarrow> None
                   | Some p \<Rightarrow>
                       if f = t then None
                       else Some \<lparr>from_square = f, to_square = t, promotion = p,
                                  drop = None\<rparr>)))
      else None)"

definition piece_symbol :: "nat \<Rightarrow> char" where
  "piece_symbol p = the (PIECE_SYMBOLS ! p)"

definition uci :: "move \<Rightarrow> string" where
  "uci m =
     (case drop m of
        Some d \<Rightarrow> upper (piece_symbol d) # CHR ''@'' # SQUARE_NAMES ! to_square m
      | None \<Rightarrow>
          (case promotion m of
             Some p \<Rightarrow>
               SQUARE_NAMES ! from_square m @ SQUARE_NAMES ! to_square m @ [piece_symbol p]
           | None \<Rightarrow>
               if from_square m \<noteq> 0 \<or> to_square m \<noteq> 0
               then SQUARE_NAMES ! from_square m @ SQUARE_NAMES ! to_square m
               else ''0000''))"

subsection \<open>The board and the outside world\<close>

text \<open>
  \<^verbatim>\<open>chess.Board\<close> is the python-chess rules engine. A board is modelled by what the
  program observes of it: \<^verbatim>\<open>board.fen()\<close>, \<^verbatim>\<open>board.turn\<close> (\<open>True\<close> is White),
  \<^verbatim>\<open>board.is_game_over()\<close>, the moves that iterating \<^verbatim>\<open>board.legal_moves\<close> yields, in
  order, and the membership test \<^verbatim>\<open>move in board.legal_moves\<close>.
\<close>

record board =
  fen :: string
  turn :: bool
  is_game_over :: bool
  legal_moves :: "move list"
  legal_moves_contains :: "move \<Rightarrow> bool"

text \<open>
  What python-chess guarantees of a board: a game that is not over has a legal move, and
  every move that the iteration yields passes the membership test.
\<close>

definition board_ok :: "board \<Rightarrow> bool" where
  "board_ok b \<longleftrightarrow>
     (\<not> is_game_over b \<longrightarrow> legal_moves b \<noteq> []) \<and> list_all (legal_moves_contains b) (legal_moves b)"

datatype exn = IndexError | EngineError | OSError

text \<open>
  The result of \<^verbatim>\<open>model.generate_content(prompt)\<close> followed by \<^verbatim>\<open>response.text\<close>:
  a text, or any exception raised on the way.
\<close>

datatype response = Text string | Fault

text \<open>
  The external collaborators, each a function of the state \<open>'w\<close> of the outside world:
  the Gemini model, Python's random number generator (\<^verbatim>\<open>random.choice(seq)\<close> draws an
  index below \<^verbatim>\<open>len(seq)\<close>), the Stockfish process and the rules of chess
  (\<^verbatim>\<open>chess.Board()\<close> and \<^verbatim>\<open>board.push\<close>). For the engine calls \<open>None\<close> and
  \<open>False\<close> stand for a raised exception.
\<close>

record 'w env =
  generate_content :: "'w \<Rightarrow> string \<Rightarrow> response \<times> 'w"
  randbelow :: "'w \<Rightarrow> nat \<Rightarrow> nat \<times> 'w"
  popen_uci :: "'w \<Rightarrow> bool \<times> 'w"
  configure :: "'w \<Rightarrow> bool \<times> 'w"
  engine_play :: "'w \<Rightarrow> board \<Rightarrow> move option \<times> 'w"
  Board :: board
  push :: "board \<Rightarrow> move \<Rightarrow> board"

text \<open>The contract of the random number generator: a draw below \<open>n\<close> is below \<open>n\<close>.\<close>

definition rng_ok :: "'w env \<Rightarrow> bool" where
  "rng_ok e \<longleftrightarrow> (\<forall>w n. 0 < n \<longrightarrow> fst (randbelow e w n) < n)"

datatype ('a, 's) outcome = Returns 'a 's | Raises exn 's

subsection \<open>\<^verbatim>\<open>get_gemini_move\<close>\<close>

text \<open>
  The state of one call: the prompt, the outside world, and the external calls made so far
  (each prompt sent to the model, each random draw with its bound).
\<close>

datatype call = Generate string | RandBelow nat

record 'w negotiation =
  prompt :: string
  world :: 'w
  calls :: "call list"

definition initial_prompt :: "board \<Rightarrow> string" where
  "initial_prompt board =
     [CHR 0x0A] @
     ''    You are playing a game of Chess against Stockfish. You are playing Black.'' @
     [CHR 0x0A] @ ''    '' @ [CHR 0x0A] @
     ''    Current Board Position (FEN): '' @ fen board @
     [CHR 0x0A] @ ''    '' @ [CHR 0x0A] @
     ''    Here is the list of legally possible moves you can make:'' @ [CHR 0x0A] @
     ''    '' @ join '', '' (map uci (legal_moves board)) @
     [CHR 0x0A] @ ''    '' @ [CHR 0x0A] @
     ''    Your goal is to survive and learn. Analyze the board.'' @ [CHR 0x0A] @
     ''    Pick the best move from the legal list above.'' @
     [CHR 0x0A] @ ''    '' @ [CHR 0x0A] @
     ''    IMPORTANT: Reply ONLY with the move in UCI format (e.g., e7e5). Do not write any other text.'' @
     [CHR 0x0A] @ ''    ''"

text \<open>Line 134.\<close>

definition illegal_feedback :: "string \<Rightarrow> string" where
  "illegal_feedback token =
     [CHR 0x0A, CHR 0x0A] @ ''ERROR: '' @ token @
     '' is not a legal move. Please choose strictly from the provided list.''"

text \<open>Lines 139 and 142.\<close>

definition format_feedback :: string where
  "format_feedback =
     [CHR 0x0A, CHR 0x0A] @
     ''ERROR: Invalid format. Please reply ONLY with the move string (e.g., e7e5).''"

text \<open>
  The handler of lines 136-142. Line 142 repeats the statement of line 139 at the
  indentation of the handler's body, so the handler appends the message twice.
\<close>

definition except_Exception :: "'w negotiation \<Rightarrow> 'w negotiation" where
  "except_Exception st =
     (let st1 = st\<lparr>prompt := prompt st @ format_feedback\<rparr>
      in st1\<lparr>prompt := prompt st1 @ format_feedback\<rparr>)"

text \<open>
  The loop \<^verbatim>\<open>for attempt in range(retries)\<close> of lines 118-142, by the number of rounds
  left. \<open>Some move\<close> is the \<^verbatim>\<open>return move\<close> of line 129, \<open>None\<close> the end of the loop.
\<close>

fun attempts :: "'w env \<Rightarrow> board \<Rightarrow> nat \<Rightarrow> 'w negotiation \<Rightarrow> move option \<times> 'w negotiation" where
  "attempts e board 0 st = (None, st)"
| "attempts e board (Suc n) st =
     (case generate_content e (world st) (prompt st) of
        (Fault, w') \<Rightarrow>
          attempts e board n
            (except_Exception (st\<lparr>world := w', calls := calls st @ [Generate (prompt st)]\<rparr>))
      | (Text text, w') \<Rightarrow>
          (let st' = st\<lparr>world := w', calls := calls st @ [Generate (prompt st)]\<rparr>
           in case from_uci (move_str text) of
                None \<Rightarrow> attempts e board n (except_Exception st')
              | Some move \<Rightarrow>
                  if legal_moves_contains board move then (Some move, st')
                  else attempts e board n
                         (st'\<lparr>prompt := prompt st' @ illegal_feedback (move_str text)\<rparr>)))"

text \<open>
  \<^verbatim>\<open>random.choice(seq)\<close>: \<^verbatim>\<open>IndexError\<close> on an empty sequence, otherwise the element
  at the index drawn below \<^verbatim>\<open>len(seq)\<close>.
\<close>

definition random_choice ::
  "'w env \<Rightarrow> move list \<Rightarrow> 'w negotiation \<Rightarrow> (move, 'w negotiation) outcome" where
  "random_choice e seq st =
     (if seq = [] then Raises IndexError st
      else case randbelow e (world st) (length seq) of
             (k, w') \<Rightarrow>
               Returns (seq ! k) (st\<lparr>world := w', calls := calls st @ [RandBelow (length seq)]\<rparr>))"

definition start_negotiation :: "board \<Rightarrow> 'w \<Rightarrow> 'w negotiation" where
  "start_negotiation board w = \<lparr>prompt = initial_prompt board, world = w, calls = []\<rparr>"

definition get_gemini_move ::
  "'w env \<Rightarrow> board \<Rightarrow> int \<Rightarrow> 'w \<Rightarrow> (move, 'w negotiation) outcome" where
  "get_gemini_move e board retries w =
     (case attempts e board (nat retries) (start_negotiation board w) of
        (Some move, st) \<Rightarrow> Returns move st
      | (None, st) \<Rightarrow> random_choice e (legal_moves board) st)"

definition is_Generate :: "call \<Rightarrow> bool" where
  "is_Generate c = (case c of Generate p \<Rightarrow> True | RandBelow n \<Rightarrow> False)"

subsection \<open>\<^verbatim>\<open>save_game_data\<close>\<close>

text \<open>
  \<^verbatim>\<open>chess.pgn.Game\<close>: the header mapping, and the rest of the game (moves, comments,
  variations), which the program never looks into.
\<close>

record 'x pgn_game =
  headers :: "string \<rightharpoonup> string"
  mainline :: 'x

record date =
  year :: nat
  month :: nat
  day :: nat

text \<open>
  The collaborators of the archiver: \<^verbatim>\<open>chess.pgn.Game.from_board\<close>, the PGN export
  \<^verbatim>\<open>str(pgn_game)\<close>, and the date part of \<^verbatim>\<open>datetime.datetime.now()\<close>.
\<close>

record 'x archive_env =
  from_board :: "board \<Rightarrow> 'x pgn_game"
  str :: "'x pgn_game \<Rightarrow> string"
  now :: date

text \<open>
  The decimal numeral of a number, and \<^verbatim>\<open>strftime("%Y.%m.%d")\<close>: the year padded with
  zeros to four digits, the month and the day to two.
\<close>

definition digit :: "nat \<Rightarrow> char" where
  "digit n = char_of (48 + n)"

function decimal :: "nat \<Rightarrow> string" where
  "decimal n = (if n < 10 then [digit n] else decimal (n div 10) @ [digit (n mod 10)])"
  by pat_completeness auto
termination
  by (relation "measure (\<lambda>n. n)") auto

declare decimal.simps [simp del]

definition zfill :: "nat \<Rightarrow> string \<Rightarrow> string" where
  "zfill width s = replicate (width - length s) (CHR ''0'') @ s"

definition strftime :: "date \<Rightarrow> string" where
  "strftime d =
     zfill 4 (decimal (year d)) @ ''.'' @ zfill 2 (decimal (month d)) @ ''.'' @
     zfill 2 (decimal (day d))"

text \<open>The dates that \<^verbatim>\<open>datetime\<close> can hold.\<close>

definition date_ok :: "date \<Rightarrow> bool" where
  "date_ok d \<longleftrightarrow>
     1 \<le> year d \<and> year d \<le> 9999 \<and> 1 \<le> month d \<and> month d \<le> 12 \<and> 1 \<le> day d \<and> day d \<le> 31"

definition isdigit :: "char \<Rightarrow> bool" where
  "isdigit c \<longleftrightarrow> (48::nat) \<le> of_char c \<and> of_char c \<le> (57::nat)"

text \<open>The shape \<^verbatim>\<open>YYYY.MM.DD\<close>.\<close>

definition YYYY_MM_DD :: "string \<Rightarrow> bool" where
  "YYYY_MM_DD s \<longleftrightarrow>
     length s = 10 \<and> list_all isdigit (take 4 s) \<and> s ! 4 = CHR ''.'' \<and>
     list_all isdigit (take 2 (List.drop 5 s)) \<and> s ! 7 = CHR ''.'' \<and>
     list_all isdigit (List.drop 8 s)"

text \<open>
  The file system: the content of each file that exists, and the paths that cannot be
  opened for writing.
\<close>

record fs =
  files :: "string \<rightharpoonup> string"
  unwritable :: "string set"

definition content :: "fs \<Rightarrow> string \<Rightarrow> string" where
  "content f path = (case files f path of None \<Rightarrow> [] | Some c \<Rightarrow> c)"

text \<open>
  \<^verbatim>\<open>open(path, "a")\<close> creates the file if it is absent and keeps its content otherwise;
  \<^verbatim>\<open>f.write(data)\<close> on a file opened for appending puts the data at its end.
\<close>

definition open_a :: "fs \<Rightarrow> string \<Rightarrow> (unit, fs) outcome" where
  "open_a f path =
     (if path \<in> unwritable f then Raises OSError f
      else Returns () (f\<lparr>files := (files f)(path \<mapsto> content f path)\<rparr>))"

definition file_write :: "fs \<Rightarrow> string \<Rightarrow> string \<Rightarrow> fs" where
  "file_write f path data = f\<lparr>files := (files f)(path \<mapsto> content f path @ data)\<rparr>"

text \<open>Lines 267-271: the game object with its four headers set.\<close>

definition pgn_game_of :: "'x archive_env \<Rightarrow> board \<Rightarrow> 'x pgn_game" where
  "pgn_game_of a board =
     (let pgn_game = from_board a board;
          pgn_game = pgn_game\<lparr>headers := (headers pgn_game)(''Event'' \<mapsto> ''Cyberchess Dojo'')\<rparr>;
          pgn_game = pgn_game\<lparr>headers := (headers pgn_game)(''White'' \<mapsto> ''Stockfish Level 5'')\<rparr>;
          pgn_game = pgn_game\<lparr>headers := (headers pgn_game)(''Black'' \<mapsto> ''Gemini 1.5 Flash'')\<rparr>
      in pgn_game\<lparr>headers := (headers pgn_game)(''Date'' \<mapsto> strftime (now a))\<rparr>)"

text \<open>Lines 267-275.\<close>

definition save_game_data :: "'x archive_env \<Rightarrow> board \<Rightarrow> fs \<Rightarrow> (unit, fs) outcome" where
  "save_game_data a board f =
     (let pgn_game = pgn_game_of a board
      in case open_a f ''training_data.pgn'' of
           Raises x f' \<Rightarrow> Raises x f'
         | Returns u f' \<Rightarrow>
             Returns () (file_write f' ''training_data.pgn'' (str a pgn_game @ [CHR 0x0A, CHR 0x0A])))"

subsection \<open>\<^verbatim>\<open>play_game\<close>\<close>

text \<open>
  The state of one game: the local variables \<^verbatim>\<open>board\<close>, \<^verbatim>\<open>game_moves\<close> and
  \<^verbatim>\<open>engine\<close> (the number of the process it refers to), the engine processes started so
  far (\<open>True\<close>: started and not shut down by the program) and the outside world.
\<close>

record 'w game =
  board :: board
  game_moves :: "move list"
  engine :: nat
  processes :: "bool list"
  outside :: 'w

text \<open>\<^verbatim>\<open>engine = chess.engine.SimpleEngine.popen_uci(STOCKFISH_PATH)\<close>, lines 176 and 182.\<close>

definition popen :: "'w env \<Rightarrow> 'w game \<Rightarrow> (unit, 'w game) outcome" where
  "popen e g =
     (case popen_uci e (outside g) of
        (False, w') \<Rightarrow> Raises EngineError (g\<lparr>outside := w'\<rparr>)
      | (True, w') \<Rightarrow>
          Returns () (g\<lparr>outside := w', engine := length (processes g),
                         processes := processes g @ [True]\<rparr>))"

text \<open>\<^verbatim>\<open>engine.quit()\<close>, line 232, taken to succeed.\<close>

definition quit :: "'w game \<Rightarrow> 'w game" where
  "quit g = g\<lparr>processes := (processes g)[engine g := False]\<rparr>"

text \<open>
  The body of the loop, lines 202-221: White's move comes from the engine, Black's from
  \<^verbatim>\<open>get_gemini_move(board)\<close> with the default \<^verbatim>\<open>retries=3\<close>; the move is pushed and
  appended to \<^verbatim>\<open>game_moves\<close>. An exception leaves the body at once.
\<close>

definition loop_body :: "'w env \<Rightarrow> 'w game \<Rightarrow> (unit, 'w game) outcome" where
  "loop_body e g =
     (if turn (board g) then
        (case engine_play e (outside g) (board g) of
           (None, w') \<Rightarrow> Raises EngineError (g\<lparr>outside := w'\<rparr>)
         | (Some move, w') \<Rightarrow>
             Returns () (g\<lparr>board := push e (board g) move,
                            game_moves := game_moves g @ [move], outside := w'\<rparr>))
      else
        (case get_gemini_move e (board g) 3 (outside g) of
           Raises x st \<Rightarrow> Raises x (g\<lparr>outside := world st\<rparr>)
         | Returns move st \<Rightarrow>
             Returns () (g\<lparr>board := push e (board g) move,
                            game_moves := game_moves g @ [move], outside := world st\<rparr>)))"

text \<open>
  \<^verbatim>\<open>while not board.is_game_over()\<close>, line 198. Nothing in the program bounds the number
  of iterations, so the loop takes fuel: \<open>None\<close> says that the fuel ran out before the
  loop ended.
\<close>

fun play_loop :: "'w env \<Rightarrow> nat \<Rightarrow> 'w game \<Rightarrow> (unit, 'w game) outcome option" where
  "play_loop e 0 g = None"
| "play_loop e (Suc fuel) g =
     (if is_game_over (board g) then Some (Returns () g)
      else case loop_body e g of
             Raises x g' \<Rightarrow> Some (Raises x g')
           | Returns u g' \<Rightarrow> play_loop e fuel g')"

text \<open>
  Lines 174-233. The board and the engine are each created twice (lines 174-176 and
  181-182); there is no \<^verbatim>\<open>try\<close> around the loop, and \<^verbatim>\<open>engine.quit()\<close> follows it.
\<close>

definition play_game :: "'w env \<Rightarrow> nat \<Rightarrow> 'w \<Rightarrow> (board, 'w game) outcome option" where
  "play_game e fuel w =
     (case popen e \<lparr>board = Board e, game_moves = [], engine = 0, processes = [],
                     outside = w\<rparr> of
        Raises x g \<Rightarrow> Some (Raises x g)
      | Returns u g1 \<Rightarrow>
          (case popen e (g1\<lparr>board := Board e\<rparr>) of
             Raises x g \<Rightarrow> Some (Raises x g)
           | Returns u g2 \<Rightarrow>
               (case configure e (outside g2) of
                  (False, w') \<Rightarrow> Some (Raises EngineError (g2\<lparr>outside := w'\<rparr>))
                | (True, w') \<Rightarrow>
                    (case play_loop e fuel (g2\<lparr>outside := w', game_moves := []\<rparr>) of
                       None \<Rightarrow> None
                     | Some (Raises x g) \<Rightarrow> Some (Raises x g)
                     | Some (Returns u g) \<Rightarrow> Some (Returns (board g) (quit g))))))"

text \<open>
  The states that the loop test of line 198 observes when the loop is entered in \<open>g0\<close>.
\<close>

inductive observed :: "'w env \<Rightarrow> 'w game \<Rightarrow> 'w game \<Rightarrow> bool" for e g0 where
  entry: "observed e g0 g0"
| iteration: "observed e g0 g \<Longrightarrow> \<not> is_game_over (board g) \<Longrightarrow> loop_body e g = Returns u g' \<Longrightarrow>
     observed e g0 g'"

text \<open>
  The position reached from \<open>b\<close> by a sequence of moves, each legal where it is played;
  \<open>None\<close> if one of them is not.
\<close>

fun replay :: "'w env \<Rightarrow> board \<Rightarrow> move list \<Rightarrow> board option" where
  "replay e b [] = Some b"
| "replay e b (m # ms) =
     (if legal_moves_contains b m then replay e (push e b m) ms else None)"

text \<open>
  What the program relies on from python-chess and from the engine: the starting position
  is a proper board, a legal move leads to a proper board, and the engine answers with a
  move that is legal on the board it was given.
\<close>

definition rules_ok :: "'w env \<Rightarrow> bool" where
  "rules_ok e \<longleftrightarrow>
     board_ok (Board e) \<and>
     (\<forall>b m. board_ok b \<longrightarrow> legal_moves_contains b m \<longrightarrow> board_ok (push e b m))"

definition engine_ok :: "'w env \<Rightarrow> bool" where
  "engine_ok e \<longleftrightarrow>
     (\<forall>w b m. board_ok b \<longrightarrow> fst (engine_play e w b) = Some m \<longrightarrow> legal_moves_contains b m)"

subsection \<open>Concrete inputs\<close>

definition mv :: "nat \<Rightarrow> nat \<Rightarrow> move" where
  "mv f t = \<lparr>from_square = f, to_square = t, promotion = None, drop = None\<rparr>"

text \<open>
  Black to move with the king on h8 against king a1 and pawn a2: the legal moves are
  h8g8, h8h7 and h8g7.
\<close>

definition endgame :: board where
  "endgame =
     \<lparr>fen = ''7k/8/8/8/8/8/P7/K7 b - - 0 1'', turn = False, is_game_over = False,
      legal_moves = [mv 63 62, mv 63 55, mv 63 54],
      legal_moves_contains = (\<lambda>m. m \<in> set [mv 63 62, mv 63 55, mv 63 54])\<rparr>"

text \<open>The starting position \<^verbatim>\<open>chess.Board()\<close> with its twenty legal moves.\<close>

definition starting_moves :: "move list" where
  "starting_moves =
     [mv 6 23, mv 6 21, mv 1 18, mv 1 16,
      mv 15 23, mv 14 22, mv 13 21, mv 12 20, mv 11 19, mv 10 18, mv 9 17, mv 8 16,
      mv 15 31, mv 14 30, mv 13 29, mv 12 28, mv 11 27, mv 10 26, mv 9 25, mv 8 24]"

definition starting_board :: board where
  "starting_board =
     \<lparr>fen = ''rnbqkbnr/pppppppp/8/8/8/8/PPPPPPPP/RNBQKBNR w KQkq - 0 1'', turn = True,
      is_game_over = False, legal_moves = starting_moves,
      legal_moves_contains = (\<lambda>m. m \<in> set starting_moves)\<rparr>"

text \<open>
  A miniature game for running the loop to its end: White has one move, Black then has
  two, and after Black's move the game is over.
\<close>

definition mini_start :: board where
  "mini_start =
     \<lparr>fen = ''mini 0'', turn = True, is_game_over = False, legal_moves = [mv 12 28],
      legal_moves_contains = (\<lambda>m. m = mv 12 28)\<rparr>"

definition mini_reply :: board where
  "mini_reply =
     \<lparr>fen = ''mini 1'', turn = False, is_game_over = False,
      legal_moves = [mv 52 36, mv 52 44],
      legal_moves_contains = (\<lambda>m. m \<in> set [mv 52 36, mv 52 44])\<rparr>"

definition mini_over :: board where
  "mini_over =
     \<lparr>fen = ''mini 2'', turn = True, is_game_over = True, legal_moves = [],
      legal_moves_contains = (\<lambda>m. False)\<rparr>"

definition mini_push :: "board \<Rightarrow> move \<Rightarrow> board" where
  "mini_push b m = (if fen b = ''mini 0'' then mini_reply else mini_over)"

text \<open>
  An outside world whose state counts the queries made to the model: the model answers
  the \<open>k\<close>-th query with \<open>src k\<close>, the random draw below \<open>n\<close> is \<open>n - 1\<close>, the engine
  starts and plays the first legal move.
\<close>

definition demo_env :: "(nat \<Rightarrow> response) \<Rightarrow> nat env" where
  "demo_env src =
     \<lparr>generate_content = (\<lambda>w p. (src w, Suc w)),
      randbelow = (\<lambda>w n. (n - 1, w)),
      popen_uci = (\<lambda>w. (True, w)),
      configure = (\<lambda>w. (True, w)),
      engine_play = (\<lambda>w b. (case legal_moves b of [] \<Rightarrow> None | m # ms \<Rightarrow> Some m, w)),
      Board = mini_start,
      push = mini_push\<rparr>"

text \<open>The same world on the real starting position, with an engine that fails when asked to play.\<close>

definition crash_env :: "nat env" where
  "crash_env = (demo_env (\<lambda>k. Fault))\<lparr>engine_play := (\<lambda>w b. (None, w)), Board := starting_board\<rparr>"

text \<open>An archiver whose export writes the four headers and an empty move text.\<close>

definition demo_archive :: "unit archive_env" where
  "demo_archive =
     \<lparr>from_board = (\<lambda>b. \<lparr>headers = [''Result'' \<mapsto> ''*''], mainline = ()\<rparr>),
      str = (\<lambda>g. concat (map (\<lambda>k. ''['' @ k @ '' '' @ [CHR 0x22] @ the (headers g k) @ [CHR 0x22] @
                                   '']'' @ [CHR 0x0A]) [''Event'', ''Date'', ''White'', ''Black'']) @
                 [CHR 0x0A] @ ''*''),
      now = \<lparr>year = 2026, month = 11, day = 3\<rparr>\<rparr>"

text \<open>Scripts for the model: what it answers to the \<open>k\<close>-th query.\<close>

definition always_z9z9 :: "nat \<Rightarrow> response" where
  "always_z9z9 k = Text ''z9z9''"

definition always_hello :: "nat \<Rightarrow> response" where
  "always_hello k = Text ''hello''"

definition z9z9_then_h8g7 :: "nat \<Rightarrow> response" where
  "z9z9_then_h8g7 k = (if k = 0 then Text ''z9z9'' else Text ''h8g7'')"

text \<open>The state in which a call ends, whether it returns or raises.\<close>

fun state_of :: "('a, 's) outcome \<Rightarrow> 's" where
  "state_of (Returns a s) = s"
| "state_of (Raises x s) = s"

text \<open>A file system in which the archive already holds earlier games.\<close>

definition archive_before :: fs where
  "archive_before = \<lparr>files = [''training_data.pgn'' \<mapsto> ''earlier games''], unwritable = {}\<rparr>"

section \<open>Properties\<close>

subsection \<open>The retry loop\<close>

lemma except_Exception_simps [simp]:
  "prompt (except_Exception st) = prompt st @ format_feedback @ format_feedback"
  "world (except_Exception st) = world st"
  "calls (except_Exception st) = calls st"
  by (simp_all add: except_Exception_def Let_def)

lemma attempts_Some_legal:
  "attempts e b n st = (Some m, st') \<Longrightarrow> legal_moves_contains b m"
proof (induction n arbitrary: st)
  case 0
  then show ?case by simp
next
  case (Suc n)
  then show ?case
    by (auto simp: Let_def split: prod.splits response.splits option.splits if_splits)
qed

lemma attempts_calls:
  "attempts e b n st = (r, st') \<Longrightarrow>
     \<exists>ps. calls st' = calls st @ map Generate ps \<and> length ps \<le> n \<and> (r = None \<longrightarrow> length ps = n)"
proof (induction n arbitrary: st)
  case 0
  then show ?case by simp
next
  case (Suc n)
  show ?case
  proof (cases "generate_content e (world st) (prompt st)")
    case (Pair resp w')
    let ?st' = "st\<lparr>world := w', calls := calls st @ [Generate (prompt st)]\<rparr>"
    have later: "\<exists>ps. calls st' = calls st @ map Generate ps \<and> length ps \<le> Suc n \<and>
        (r = None \<longrightarrow> length ps = Suc n)"
      if "attempts e b n st2 = (r, st')" "calls st2 = calls st @ [Generate (prompt st)]" for st2
    proof -
      from Suc.IH [OF that(1)] obtain ps where
        "calls st' = calls st2 @ map Generate ps" "length ps \<le> n" "r = None \<longrightarrow> length ps = n"
        by blast
      then have "calls st' = calls st @ map Generate (prompt st # ps) \<and>
          length (prompt st # ps) \<le> Suc n \<and> (r = None \<longrightarrow> length (prompt st # ps) = Suc n)"
        using that(2) by simp
      then show ?thesis by blast
    qed
    show ?thesis
    proof (cases resp)
      case Fault
      with Pair Suc.prems show ?thesis by (auto intro!: later)
    next
      case (Text raw)
      show ?thesis
      proof (cases "from_uci (move_str raw)")
        case None
        with Pair Text Suc.prems show ?thesis by (auto simp: Let_def intro!: later)
      next
        case (Some m)
        show ?thesis
        proof (cases "legal_moves_contains b m")
          case True
          with Pair Text Some Suc.prems
          have "r = Some m" "st' = ?st'" by (auto simp: Let_def)
          then have "calls st' = calls st @ map Generate [prompt st]" by simp
          then show ?thesis using \<open>r = Some m\<close> by (intro exI [of _ "[prompt st]"]) simp
        next
          case False
          with Pair Text Some Suc.prems show ?thesis by (auto simp: Let_def intro!: later)
        qed
      qed
    qed
  qed
qed

lemma attempts_prompt_prefix:
  "attempts e b n st = (r, st') \<Longrightarrow> prefix (prompt st) (prompt st')"
proof (induction n arbitrary: st)
  case 0
  then show ?case by simp
next
  case (Suc n)
  have later: "prefix (prompt st) (prompt st')"
    if "attempts e b n st2 = (r, st')" "prefix (prompt st) (prompt st2)" for st2
    using Suc.IH [OF that(1)] that(2) by (rule prefix_order.trans [rotated])
  from Suc.prems show ?case
    by (auto simp: Let_def split: prod.splits response.splits option.splits if_splits
        intro!: later)
qed

lemma attempts_prompt_length:
  "attempts e b n st = (r, st') \<Longrightarrow> length (prompt st) \<le> length (prompt st')"
  by (drule attempts_prompt_prefix) (rule prefix_length_le)

lemma attempts_add:
  "attempts e b (j + n) st =
     (case attempts e b j st of
        (None, st') \<Rightarrow> attempts e b n st'
      | (Some m, st') \<Rightarrow> (Some m, st'))"
proof (induction j arbitrary: st)
  case 0
  then show ?case by simp
next
  case (Suc j)
  then show ?case
    by (auto simp: Let_def split: prod.splits response.splits option.splits)
qed

text \<open>
  One round, by what it receives: a legal move ends the loop with the prompt as it was; a
  move that parses and is not legal appends the message that names the token; a text that
  does not parse, and a fault of the model, run the handler.
\<close>

lemma round_legal:
  assumes "generate_content e (world st) (prompt st) = (Text raw, w')"
    and "from_uci (move_str raw) = Some m" and "legal_moves_contains b m"
  shows "attempts e b (Suc n) st =
           (Some m, st\<lparr>world := w', calls := calls st @ [Generate (prompt st)]\<rparr>)"
  using assms by (simp add: Let_def)

lemma round_illegal:
  assumes "generate_content e (world st) (prompt st) = (Text raw, w')"
    and "from_uci (move_str raw) = Some m" and "\<not> legal_moves_contains b m"
  shows "attempts e b (Suc n) st =
           attempts e b n (st\<lparr>world := w', calls := calls st @ [Generate (prompt st)],
                              prompt := prompt st @ illegal_feedback (move_str raw)\<rparr>)"
  using assms by (simp add: Let_def)

lemma round_unparsed:
  assumes "generate_content e (world st) (prompt st) = (Text raw, w')"
    and "from_uci (move_str raw) = None"
  shows "attempts e b (Suc n) st =
           attempts e b n (st\<lparr>world := w', calls := calls st @ [Generate (prompt st)],
                              prompt := prompt st @ format_feedback @ format_feedback\<rparr>)"
  using assms by (simp add: Let_def except_Exception_def)

lemma round_fault:
  assumes "generate_content e (world st) (prompt st) = (Fault, w')"
  shows "attempts e b (Suc n) st =
           attempts e b n (st\<lparr>world := w', calls := calls st @ [Generate (prompt st)],
                              prompt := prompt st @ format_feedback @ format_feedback\<rparr>)"
  using assms by (simp add: Let_def except_Exception_def)

lemma random_choice_Returns:
  assumes "seq \<noteq> []" "rng_ok e"
  shows "\<exists>k w'. randbelow e (world st) (length seq) = (k, w') \<and> k < length seq \<and>
           random_choice e seq st =
             Returns (seq ! k) (st\<lparr>world := w', calls := calls st @ [RandBelow (length seq)]\<rparr>)"
proof -
  obtain k w' where kw: "randbelow e (world st) (length seq) = (k, w')"
    by (cases "randbelow e (world st) (length seq)")
  from assms have "fst (randbelow e (world st) (length seq)) < length seq"
    unfolding rng_ok_def by simp
  with kw have "k < length seq" by simp
  with kw assms(1) show ?thesis by (simp add: random_choice_def)
qed

lemma filter_is_Generate [simp]: "filter is_Generate (map Generate ps) = map Generate ps"
  by (induction ps) (simp_all add: is_Generate_def)

lemma rng_ok_demo_env: "rng_ok (demo_env src)"
  by (simp add: rng_ok_def demo_env_def)

lemma endgame_simps:
  "legal_moves endgame = [mv 63 62, mv 63 55, mv 63 54]"
  "legal_moves_contains endgame m \<longleftrightarrow> m \<in> set [mv 63 62, mv 63 55, mv 63 54]"
  "is_game_over endgame = False"
  by (simp_all add: endgame_def)

lemma demo_env_simps:
  "generate_content (demo_env src) w p = (src w, Suc w)"
  "randbelow (demo_env src) w n = (n - 1, w)"
  by (simp_all add: demo_env_def)

lemma parse_z9z9: "from_uci (move_str ''z9z9'') = None"
  by code_simp

lemma parse_hello: "from_uci (move_str ''hello'') = None"
  by code_simp

lemma parse_h8g7: "from_uci (move_str ''h8g7'') = Some (mv 63 54)"
  by code_simp

lemma negotiated_move_legal:
  assumes "legal_moves b \<noteq> []"
    and "list_all (legal_moves_contains b) (legal_moves b)"
    and "rng_ok e"
  shows "\<exists>m st. get_gemini_move e b retries w = Returns m st \<and> legal_moves_contains b m"
proof (cases "attempts e b (nat retries) (start_negotiation b w)")
  case (Pair r st)
  show ?thesis
  proof (cases r)
    case None
    from random_choice_Returns [OF assms(1) assms(3), of st] obtain k st' where
      "k < length (legal_moves b)"
      "random_choice e (legal_moves b) st = Returns (legal_moves b ! k) st'"
      by blast
    moreover from this(1) assms(2) have "legal_moves_contains b (legal_moves b ! k)"
      by (simp add: list_all_length)
    ultimately show ?thesis using Pair None by (simp add: get_gemini_move_def)
  next
    case (Some m)
    with Pair have "legal_moves_contains b m" by (auto dest: attempts_Some_legal)
    with Pair Some show ?thesis by (simp add: get_gemini_move_def)
  qed
qed

text \<open>
  C1. On a board with at least one legal move, whatever the model answers or raises,
  \<^verbatim>\<open>get_gemini_move\<close> returns a move, and \<^verbatim>\<open>move in board.legal_moves\<close> holds of it:
  a move returned from the loop has passed that test, and the fallback draws from the
  moves that the board enumerates. The random draw is taken to respect its bound.
\<close>

theorem get_gemini_move_legal:
  assumes "legal_moves b \<noteq> []"
    and "list_all (legal_moves_contains b) (legal_moves b)"
    and "rng_ok e"
  shows "\<exists>m st. get_gemini_move e b retries w = Returns m st \<and> legal_moves_contains b m"
  using assms by (rule negotiated_move_legal)

theorem get_gemini_move_legal_witness:
  "legal_moves endgame \<noteq> [] \<and>
   list_all (legal_moves_contains endgame) (legal_moves endgame) \<and>
   rng_ok (demo_env z9z9_then_h8g7) \<and>
   (\<exists>m st. get_gemini_move (demo_env z9z9_then_h8g7) endgame 3 0 = Returns m st \<and>
      legal_moves_contains endgame m)"
proof -
  have h1: "legal_moves endgame \<noteq> []" by (simp add: endgame_simps)
  have h2: "list_all (legal_moves_contains endgame) (legal_moves endgame)"
    by (simp add: endgame_simps)
  have h3: "rng_ok (demo_env z9z9_then_h8g7)" by (rule rng_ok_demo_env)
  from get_gemini_move_legal [OF h1 h2 h3, of 3 0] h1 h2 h3 show ?thesis by blast
qed

text \<open>
  C4. On a board with at least one legal move and with \<open>retries \<ge> 1\<close>, the call returns
  after at most \<open>retries\<close> queries to the model, whatever the model does. If no round
  yields a legal move, exactly \<open>retries\<close> queries were made and the move returned is the
  one at the drawn index in the enumeration of the legal moves of the board passed in.
\<close>

theorem get_gemini_move_terminates:
  assumes "legal_moves b \<noteq> []" and "1 \<le> retries" and "rng_ok e"
  shows "\<exists>m st. get_gemini_move e b retries w = Returns m st \<and>
           length (filter is_Generate (calls st)) \<le> nat retries \<and>
           (fst (attempts e b (nat retries) (start_negotiation b w)) = None \<longrightarrow>
              (\<exists>k w'. randbelow e (world (snd (attempts e b (nat retries) (start_negotiation b w))))
                          (length (legal_moves b)) = (k, w') \<and>
                      k < length (legal_moves b) \<and> m = legal_moves b ! k \<and>
                      length (filter is_Generate (calls st)) = nat retries))"
proof (cases "attempts e b (nat retries) (start_negotiation b w)")
  case (Pair r st)
  from attempts_calls [OF Pair] obtain ps where
    ps: "calls st = map Generate ps" "length ps \<le> nat retries" "r = None \<longrightarrow> length ps = nat retries"
    by (auto simp: start_negotiation_def)
  show ?thesis
  proof (cases r)
    case None
    from random_choice_Returns [OF assms(1) assms(3), of st] obtain k w' where
      kw: "randbelow e (world st) (length (legal_moves b)) = (k, w')"
      "k < length (legal_moves b)"
      "random_choice e (legal_moves b) st = Returns (legal_moves b ! k)
         (st\<lparr>world := w', calls := calls st @ [RandBelow (length (legal_moves b))]\<rparr>)"
      by blast
    with Pair None ps show ?thesis
      by (simp add: get_gemini_move_def is_Generate_def)
  next
    case (Some m)
    with Pair ps show ?thesis by (simp add: get_gemini_move_def)
  qed
qed

lemma run_always_hello:
  "attempts (demo_env always_hello) endgame (Suc (Suc 0)) (start_negotiation endgame 0) =
     (None, \<lparr>prompt = initial_prompt endgame @ format_feedback @ format_feedback @
               format_feedback @ format_feedback,
             world = 2,
             calls = [Generate (initial_prompt endgame),
                      Generate (initial_prompt endgame @ format_feedback @ format_feedback)]\<rparr>)"
  by (simp add: demo_env_simps always_hello_def parse_hello start_negotiation_def
      except_Exception_def Let_def)

theorem get_gemini_move_terminates_witness:
  "legal_moves endgame \<noteq> [] \<and> (1::int) \<le> 2 \<and> rng_ok (demo_env always_hello) \<and>
   fst (attempts (demo_env always_hello) endgame (nat 2) (start_negotiation endgame 0)) = None \<and>
   (\<exists>st. get_gemini_move (demo_env always_hello) endgame 2 0 = Returns (mv 63 54) st \<and>
      length (filter is_Generate (calls st)) = 2)"
proof -
  have h1: "legal_moves endgame \<noteq> []" by (simp add: endgame_simps)
  have h2: "(1::int) \<le> 2" by simp
  have h3: "rng_ok (demo_env always_hello)" by (rule rng_ok_demo_env)
  have n: "nat 2 = Suc (Suc 0)" by simp
  have run: "fst (attempts (demo_env always_hello) endgame (nat 2) (start_negotiation endgame 0)) = None"
    by (simp only: n run_always_hello fst_conv)
  from get_gemini_move_terminates [OF h1 h2 h3, of 0] run
  have "\<exists>st. get_gemini_move (demo_env always_hello) endgame 2 0 = Returns (mv 63 54) st \<and>
      length (filter is_Generate (calls st)) = 2"
    by (auto simp: n run_always_hello demo_env_simps endgame_simps)
  with h1 h2 h3 run show ?thesis by blast
qed

text \<open>
  C5. If the first \<open>k\<close> rounds fail and round \<open>k < retries\<close> receives a text whose
  sanitised form parses to a move that passes the legality test, the call returns that move
  at once: the prompt is the one that round sent, the calls made are the \<open>k + 1\<close> queries
  to the model and nothing else, so no random draw takes place.
\<close>

theorem first_success_wins:
  assumes "k < nat retries"
    and "attempts e b k (start_negotiation b w) = (None, st)"
    and "generate_content e (world st) (prompt st) = (Text raw, w')"
    and "from_uci (move_str raw) = Some m"
    and "legal_moves_contains b m"
  shows "get_gemini_move e b retries w =
           Returns m (st\<lparr>world := w', calls := calls st @ [Generate (prompt st)]\<rparr>) \<and>
         length (calls st @ [Generate (prompt st)]) = Suc k \<and>
         list_all is_Generate (calls st @ [Generate (prompt st)])"
proof -
  from assms(1) obtain n where n: "nat retries = k + Suc n"
    by (metis less_iff_Suc_add add_Suc_right)
  have "attempts e b (nat retries) (start_negotiation b w) = attempts e b (Suc n) st"
    unfolding n by (simp only: attempts_add assms(2) prod.case option.case)
  also have "\<dots> = (Some m, st\<lparr>world := w', calls := calls st @ [Generate (prompt st)]\<rparr>)"
    using assms(3-5) by (rule round_legal)
  finally have run: "get_gemini_move e b retries w =
      Returns m (st\<lparr>world := w', calls := calls st @ [Generate (prompt st)]\<rparr>)"
    by (simp add: get_gemini_move_def)
  from attempts_calls [OF assms(2)] obtain ps where
    "calls st = map Generate ps" "length ps = k"
    by (auto simp: start_negotiation_def)
  then have "length (calls st @ [Generate (prompt st)]) = Suc k"
    "list_all is_Generate (calls st @ [Generate (prompt st)])"
    by (simp_all add: list_all_iff is_Generate_def)
  with run show ?thesis by simp
qed

lemma run_z9z9_then_h8g7:
  "attempts (demo_env z9z9_then_h8g7) endgame (Suc 0) (start_negotiation endgame 0) =
     (None, \<lparr>prompt = initial_prompt endgame @ format_feedback @ format_feedback,
             world = Suc 0, calls = [Generate (initial_prompt endgame)]\<rparr>)"
  by (simp add: demo_env_simps z9z9_then_h8g7_def parse_z9z9 start_negotiation_def
      except_Exception_def Let_def)

theorem first_success_wins_witness:
  "get_gemini_move (demo_env z9z9_then_h8g7) endgame 3 0 =
     Returns (mv 63 54)
       \<lparr>prompt = initial_prompt endgame @ format_feedback @ format_feedback, world = 2,
        calls = [Generate (initial_prompt endgame),
                 Generate (initial_prompt endgame @ format_feedback @ format_feedback)]\<rparr>"
proof -
  let ?st = "\<lparr>prompt = initial_prompt endgame @ format_feedback @ format_feedback,
             world = Suc 0, calls = [Generate (initial_prompt endgame)]\<rparr>"
  have h1: "1 < nat 3" by simp
  have h2: "attempts (demo_env z9z9_then_h8g7) endgame 1 (start_negotiation endgame 0) = (None, ?st)"
    using run_z9z9_then_h8g7 by simp
  have h3: "generate_content (demo_env z9z9_then_h8g7) (world ?st) (prompt ?st) = (Text ''h8g7'', 2)"
    by (simp add: demo_env_simps z9z9_then_h8g7_def)
  have h4: "from_uci (move_str ''h8g7'') = Some (mv 63 54)" by (rule parse_h8g7)
  have h5: "legal_moves_contains endgame (mv 63 54)" by (simp add: endgame_simps)
  from first_success_wins [OF h1 h2 h3 h4 h5] show ?thesis by simp
qed

text \<open>
  C10. With \<open>retries = 0\<close>, on a board with at least one legal move, the call returns the
  legal move at the drawn index; its only external call is the random draw, the model is
  never queried and the prompt is never extended.
\<close>

theorem get_gemini_move_zero_retries:
  assumes "legal_moves b \<noteq> []" and "rng_ok e"
  shows "\<exists>k w'. randbelow e w (length (legal_moves b)) = (k, w') \<and>
           k < length (legal_moves b) \<and>
           legal_moves b ! k \<in> set (legal_moves b) \<and>
           get_gemini_move e b 0 w =
             Returns (legal_moves b ! k)
               \<lparr>prompt = initial_prompt b, world = w',
                calls = [RandBelow (length (legal_moves b))]\<rparr>"
proof -
  from random_choice_Returns [OF assms, of "start_negotiation b w"]
  show ?thesis by (auto simp: get_gemini_move_def start_negotiation_def)
qed

theorem get_gemini_move_zero_retries_witness:
  "legal_moves endgame \<noteq> [] \<and> rng_ok (demo_env always_hello) \<and>
   get_gemini_move (demo_env always_hello) endgame 0 0 =
     Returns (mv 63 54) \<lparr>prompt = initial_prompt endgame, world = 0, calls = [RandBelow 3]\<rparr>"
proof -
  have h1: "legal_moves endgame \<noteq> []" by (simp add: endgame_simps)
  have h2: "rng_ok (demo_env always_hello)" by (rule rng_ok_demo_env)
  from get_gemini_move_zero_retries [OF h1 h2, of 0] h1 h2 show ?thesis
    by (auto simp: demo_env_simps endgame_simps)
qed

text \<open>
  C3, as stated, fails: \<^verbatim>\<open>z9z9\<close> does not parse (z9 is not a square), so each round
  runs the exception handler. With three rounds on the end game above, the prompt ends in
  format messages and not in three messages of the illegal-move form.
\<close>

theorem z9z9_counterexample:
  "prompt (state_of (get_gemini_move (demo_env always_z9z9) endgame 3 0)) =
     initial_prompt endgame @ concat (replicate 6 format_feedback) \<and>
   prompt (state_of (get_gemini_move (demo_env always_z9z9) endgame 3 0)) \<noteq>
     initial_prompt endgame @ concat (replicate 3 (illegal_feedback ''z9z9''))"
proof -
  have run: "prompt (state_of (get_gemini_move (demo_env always_z9z9) endgame 3 0)) =
     initial_prompt endgame @ concat (replicate 6 format_feedback)"
    by (simp add: get_gemini_move_def eval_nat_numeral demo_env_simps always_z9z9_def
        parse_z9z9 start_negotiation_def except_Exception_def Let_def random_choice_def
        endgame_simps)
  have "concat (replicate 6 format_feedback) \<noteq> concat (replicate 3 (illegal_feedback ''z9z9''))"
    by (simp add: eval_nat_numeral format_feedback_def illegal_feedback_def)
  with run show ?thesis by simp
qed

lemma attempts_unparsed:
  assumes "\<forall>w p. fst (generate_content e w p) = Text raw" and "from_uci (move_str raw) = None"
  shows "\<exists>st'. attempts e b n st = (None, st') \<and>
           prompt st' = prompt st @ concat (replicate (2 * n) format_feedback)"
proof (induction n arbitrary: st)
  case 0
  then show ?case by simp
next
  case (Suc n)
  obtain w' where gen: "generate_content e (world st) (prompt st) = (Text raw, w')"
    using assms(1) by (metis prod.collapse)
  let ?st = "st\<lparr>world := w', calls := calls st @ [Generate (prompt st)],
                 prompt := prompt st @ format_feedback @ format_feedback\<rparr>"
  from Suc.IH [of ?st] obtain st' where
    "attempts e b n ?st = (None, st')"
    "prompt st' = prompt ?st @ concat (replicate (2 * n) format_feedback)"
    by blast
  then show ?case unfolding round_unparsed [OF gen assms(2)] by simp
qed

text \<open>
  C3, amended. If the model answers \<^verbatim>\<open>z9z9\<close> to every query, every one of the
  \<open>retries\<close> rounds fails: the calls of the loop are \<open>retries\<close> queries to the model, and
  the prompt it leaves is the initial prompt followed by format messages only, at least one
  for each round, so no message of the illegal-move form is appended. The call then draws
  one index below the number of legal moves, in the world the loop left, and returns the
  legal move at the index drawn.
\<close>

theorem z9z9_format_feedback:
  assumes "\<forall>w p. fst (generate_content e w p) = Text ''z9z9''"
    and "legal_moves b \<noteq> []" and "rng_ok e"
  shows "\<exists>st ps j k w'.
           attempts e b (nat retries) (start_negotiation b w) = (None, st) \<and>
           calls st = map Generate ps \<and> length ps = nat retries \<and>
           nat retries \<le> j \<and>
           prompt st = initial_prompt b @ concat (replicate j format_feedback) \<and>
           randbelow e (world st) (length (legal_moves b)) = (k, w') \<and>
           k < length (legal_moves b) \<and>
           get_gemini_move e b retries w =
             Returns (legal_moves b ! k)
               (st\<lparr>world := w', calls := calls st @ [RandBelow (length (legal_moves b))]\<rparr>)"
proof -
  from attempts_unparsed [OF assms(1) parse_z9z9, of b "nat retries" "start_negotiation b w"]
  obtain st where
    run: "attempts e b (nat retries) (start_negotiation b w) = (None, st)" and
    pr: "prompt st = initial_prompt b @ concat (replicate (2 * nat retries) format_feedback)"
    by (auto simp: start_negotiation_def)
  from attempts_calls [OF run] obtain ps where
    ps: "calls st = map Generate ps" "length ps = nat retries"
    by (auto simp: start_negotiation_def)
  from random_choice_Returns [OF assms(2) assms(3), of st] obtain k w' where
    kw: "randbelow e (world st) (length (legal_moves b)) = (k, w')"
    "k < length (legal_moves b)"
    "random_choice e (legal_moves b) st = Returns (legal_moves b ! k)
       (st\<lparr>world := w', calls := calls st @ [RandBelow (length (legal_moves b))]\<rparr>)"
    by blast
  have "get_gemini_move e b retries w =
      Returns (legal_moves b ! k)
        (st\<lparr>world := w', calls := calls st @ [RandBelow (length (legal_moves b))]\<rparr>)"
    using run kw(3) by (simp add: get_gemini_move_def)
  moreover have "nat retries \<le> 2 * nat retries" by simp
  ultimately show ?thesis using run ps pr kw(1,2) by blast
qed

theorem z9z9_format_feedback_witness:
  "(\<forall>w p. fst (generate_content (demo_env always_z9z9) w p) = Text ''z9z9'') \<and>
   legal_moves endgame \<noteq> [] \<and> rng_ok (demo_env always_z9z9) \<and>
   (\<exists>st ps j. attempts (demo_env always_z9z9) endgame (nat 3) (start_negotiation endgame 0) =
        (None, st) \<and>
      calls st = map Generate ps \<and> length ps = nat 3 \<and> nat 3 \<le> j \<and>
      prompt st = initial_prompt endgame @ concat (replicate j format_feedback) \<and>
      get_gemini_move (demo_env always_z9z9) endgame 3 0 =
        Returns (mv 63 54) (st\<lparr>world := world st, calls := calls st @ [RandBelow 3]\<rparr>))"
proof -
  have h1: "\<forall>w p. fst (generate_content (demo_env always_z9z9) w p) = Text ''z9z9''"
    by (simp add: demo_env_simps always_z9z9_def)
  have h2: "legal_moves endgame \<noteq> []" by (simp add: endgame_simps)
  have h3: "rng_ok (demo_env always_z9z9)" by (rule rng_ok_demo_env)
  from z9z9_format_feedback [OF h1 h2 h3, of 3 0] obtain st ps j k w' where
    run: "attempts (demo_env always_z9z9) endgame (nat 3) (start_negotiation endgame 0) = (None, st)"
      "calls st = map Generate ps" "length ps = nat 3" "nat 3 \<le> j"
      "prompt st = initial_prompt endgame @ concat (replicate j format_feedback)" and
    draw: "randbelow (demo_env always_z9z9) (world st) (length (legal_moves endgame)) = (k, w')" and
    ret: "get_gemini_move (demo_env always_z9z9) endgame 3 0 =
        Returns (legal_moves endgame ! k)
          (st\<lparr>world := w', calls := calls st @ [RandBelow (length (legal_moves endgame))]\<rparr>)"
    by blast
  from draw have "k = 2" "w' = world st" by (simp_all add: demo_env_simps endgame_simps)
  with ret have "get_gemini_move (demo_env always_z9z9) endgame 3 0 =
      Returns (mv 63 54) (st\<lparr>world := world st, calls := calls st @ [RandBelow 3]\<rparr>)"
    by (simp add: endgame_simps)
  with run h1 h2 h3 show ?thesis by blast
qed

text \<open>
  C6. The prompt only grows (\<open>attempts_prompt_prefix\<close>) and each kind of failure appends
  its own message (\<open>round_illegal\<close>, \<open>round_unparsed\<close>, \<open>round_fault\<close>), but a round that
  fails in the handler of lines 136-142 appends the format message twice, not once: here
  one round on the end game with the unparseable answer \<^verbatim>\<open>hello\<close>.
\<close>

theorem format_feedback_appended_twice:
  "get_gemini_move (demo_env always_hello) endgame 1 0 =
     Returns (mv 63 54)
       \<lparr>prompt = initial_prompt endgame @ format_feedback @ format_feedback, world = 1,
        calls = [Generate (initial_prompt endgame), RandBelow 3]\<rparr>"
  by (simp add: get_gemini_move_def demo_env_simps always_hello_def parse_hello
      start_negotiation_def except_Exception_def Let_def random_choice_def endgame_simps)

subsection \<open>Sanitising the response\<close>

lemma replace_empty: "replace c [] s = filter (\<lambda>x. x \<noteq> c) s"
  by (induction s) (simp_all add: replace_def)

lemma filter_dropWhile:
  assumes "\<And>x. Q x \<Longrightarrow> \<not> P x"
  shows "filter P (dropWhile Q xs) = filter P xs"
  using assms by (induction xs) simp_all

lemma filter_strip:
  assumes "\<And>x. isspace x \<Longrightarrow> \<not> P x"
  shows "filter P (strip s) = filter P s"
proof -
  have "filter P (strip s) = rev (filter P (dropWhile isspace (rev (dropWhile isspace s))))"
    by (simp add: strip_def rev_filter)
  also have "\<dots> = rev (filter P (rev (dropWhile isspace s)))"
    by (simp only: filter_dropWhile [of isspace P, OF assms])
  also have "\<dots> = filter P (dropWhile isspace s)"
    by (simp add: rev_filter)
  also have "\<dots> = filter P s"
    by (rule filter_dropWhile [OF assms])
  finally show ?thesis .
qed

lemma subseq_dropWhile: "subseq (dropWhile Q xs) xs"
  by (induction xs) (auto intro: subseq_Cons')

lemma subseq_strip: "subseq (strip s) s"
proof -
  let ?t = "dropWhile isspace s"
  have "?t = rev (dropWhile isspace (rev ?t)) @ rev (takeWhile isspace (rev ?t))"
    by (metis rev_append rev_rev_ident takeWhile_dropWhile_id)
  then have "prefix (strip s) ?t"
    unfolding strip_def by (rule prefixI)
  then have "subseq (strip s) ?t" by (rule prefix_imp_subseq)
  also have "subseq ?t s" by (rule subseq_dropWhile)
  finally show ?thesis .
qed

lemma move_str_filter:
  "move_str raw = filter (\<lambda>c. c \<notin> {CHR 0x0A, CHR '' '', CHR 0x60}) (strip raw)"
  by (simp add: move_str_def replace_empty conj_ac)

text \<open>
  C7. The sanitised candidate of lines 121-124 is the raw text with surrounding white space
  stripped and every newline, space and backtick then removed, as the specification words
  it. Nothing else is altered: the candidate is a subsequence of the raw text, and the
  characters that are neither white space nor backticks are the same, in the same order,
  in the raw text and in the candidate; letter case is therefore preserved.
\<close>

theorem move_str_refines:
  "move_str raw = sanitize_spec raw \<and>
   subseq (move_str raw) raw \<and>
   filter (\<lambda>c. \<not> isspace c \<and> c \<noteq> CHR 0x60) (move_str raw) =
     filter (\<lambda>c. \<not> isspace c \<and> c \<noteq> CHR 0x60) raw \<and>
   (\<forall>c \<in> set (move_str raw). c \<noteq> CHR 0x0A \<and> c \<noteq> CHR '' '' \<and> c \<noteq> CHR 0x60)"
proof -
  let ?keep = "\<lambda>c. \<not> isspace c \<and> c \<noteq> CHR 0x60"
  have eq: "move_str raw = sanitize_spec raw"
    by (simp add: move_str_filter sanitize_spec_def)
  have "subseq (move_str raw) (strip raw)"
    unfolding move_str_filter by (rule subseq_filter_left)
  then have sub: "subseq (move_str raw) raw"
    using subseq_strip by (rule subseq_order.trans)
  have sp: "isspace (CHR 0x0A)" "isspace (CHR '' '')"
    by (simp_all add: isspace_def)
  have "filter ?keep (move_str raw) = filter ?keep (strip raw)"
    unfolding move_str_filter using sp by (auto intro!: filter_cong)
  also have "\<dots> = filter ?keep raw"
    by (rule filter_strip) simp
  finally have kept: "filter ?keep (move_str raw) = filter ?keep raw" .
  have "\<forall>c \<in> set (move_str raw). c \<noteq> CHR 0x0A \<and> c \<noteq> CHR '' '' \<and> c \<noteq> CHR 0x60"
    by (simp add: move_str_filter)
  with eq sub kept show ?thesis by blast
qed

theorem move_str_refines_witness:
  "move_str ([CHR 0x60] @ ''E7E5'' @ [CHR 0x60, CHR 0x0A]) = ''E7E5'' \<and>
   sanitize_spec ([CHR 0x60] @ ''E7E5'' @ [CHR 0x60, CHR 0x0A]) = ''E7E5''"
proof -
  have "move_str ([CHR 0x60] @ ''E7E5'' @ [CHR 0x60, CHR 0x0A]) = ''E7E5''"
    by code_simp
  with move_str_refines [of "[CHR 0x60] @ ''E7E5'' @ [CHR 0x60, CHR 0x0A]"] show ?thesis
    by simp
qed

subsection \<open>The game loop\<close>

lemma popen_Returns:
  "popen e g = Returns u g' \<Longrightarrow>
     processes g' = processes g @ [True] \<and> engine g' = length (processes g) \<and>
     board g' = board g \<and> game_moves g' = game_moves g"
  by (auto simp: popen_def split: prod.splits bool.splits)

lemma popen_Raises: "popen e g = Raises x g' \<Longrightarrow> processes g' = processes g"
  by (auto simp: popen_def split: prod.splits bool.splits)

lemma loop_body_engine:
  "loop_body e g = r \<Longrightarrow>
     processes (state_of r) = processes g \<and> engine (state_of r) = engine g"
  by (auto simp: loop_body_def split: prod.splits option.splits outcome.splits if_splits)

lemma play_loop_engine:
  "play_loop e fuel g = Some r \<Longrightarrow>
     processes (state_of r) = processes g \<and> engine (state_of r) = engine g"
proof (induction fuel arbitrary: g)
  case 0
  then show ?case by simp
next
  case (Suc fuel)
  show ?case
  proof (cases "is_game_over (board g)")
    case True
    with Suc.prems show ?thesis by auto
  next
    case False
    show ?thesis
    proof (cases "loop_body e g")
      case (Returns u g')
      with False Suc.prems have "play_loop e fuel g' = Some r" by simp
      from Suc.IH [OF this] loop_body_engine [OF Returns] show ?thesis by simp
    next
      case (Raises x g')
      with False Suc.prems have "r = Raises x g'" by simp
      with loop_body_engine [OF Raises] show ?thesis by simp
    qed
  qed
qed

lemma play_loop_Returns:
  "play_loop e fuel g = Some (Returns u gf) \<Longrightarrow> is_game_over (board gf)"
proof (induction fuel arbitrary: g)
  case 0
  then show ?case by simp
next
  case (Suc fuel)
  then show ?case by (auto split: if_splits outcome.splits)
qed

lemma play_loop_observed:
  "play_loop e fuel g = Some (Returns u gf) \<Longrightarrow> observed e g0 g \<Longrightarrow> observed e g0 gf"
proof (induction fuel arbitrary: g)
  case 0
  then show ?case by simp
next
  case (Suc fuel)
  show ?case
  proof (cases "is_game_over (board g)")
    case True
    with Suc.prems show ?thesis by simp
  next
    case False
    with Suc.prems obtain u' g' where body: "loop_body e g = Returns u' g'"
      and rest: "play_loop e fuel g' = Some (Returns u gf)"
      by (auto split: outcome.splits)
    from Suc.prems(2) False body have "observed e g0 g'" by (rule observed.iteration)
    with rest show ?thesis by (rule Suc.IH)
  qed
qed

text \<open>
  C2, amended. \<^verbatim>\<open>play_game\<close> starts the engine before the loop. When the loop ends
  because the game is over, the engine in use has been started and is shut down before the
  board is returned. When a step raises (starting or configuring the engine, or an iteration
  of the loop), the exception leaves \<^verbatim>\<open>play_game\<close> and no engine process that was
  started has been shut down.
\<close>

theorem play_game_engine_quit:
  "(play_game e fuel w = Some (Returns b g) \<longrightarrow>
      is_game_over b \<and> engine g < length (processes g) \<and> processes g ! engine g = False) \<and>
   (play_game e fuel w = Some (Raises x g) \<longrightarrow> False \<notin> set (processes g))"
proof (intro conjI impI)
  let ?g0 = "\<lparr>board = Board e, game_moves = [], engine = 0, processes = [], outside = w\<rparr>"
  assume ret: "play_game e fuel w = Some (Returns b g)"
  then obtain u1 g1 where p1: "popen e ?g0 = Returns u1 g1"
    by (auto simp: play_game_def split: outcome.splits)
  with ret obtain u2 g2 where p2: "popen e (g1\<lparr>board := Board e\<rparr>) = Returns u2 g2"
    by (auto simp: play_game_def split: outcome.splits)
  with ret p1 obtain w' where c: "configure e (outside g2) = (True, w')"
    by (auto simp: play_game_def split: prod.splits bool.splits)
  with ret p1 p2 obtain u gf where
    loop: "play_loop e fuel (g2\<lparr>outside := w', game_moves := []\<rparr>) = Some (Returns u gf)"
    and g: "g = quit gf" and b: "b = board gf"
    by (auto simp: play_game_def split: option.splits outcome.splits)
  from popen_Returns [OF p1] popen_Returns [OF p2]
  have "processes g2 = [True, True]" "engine g2 = 1" by simp_all
  with play_loop_engine [OF loop] have "processes gf = [True, True]" "engine gf = 1"
    by simp_all
  with g have "engine g < length (processes g)" "processes g ! engine g = False"
    by (simp_all add: quit_def)
  moreover from play_loop_Returns [OF loop] b have "is_game_over b" by simp
  ultimately show "is_game_over b" "engine g < length (processes g)"
    "processes g ! engine g = False" by simp_all
next
  let ?g0 = "\<lparr>board = Board e, game_moves = [], engine = 0, processes = [], outside = w\<rparr>"
  assume rs: "play_game e fuel w = Some (Raises x g)"
  show "False \<notin> set (processes g)"
  proof (cases "popen e ?g0")
    case (Raises x1 g1)
    with rs have "g = g1" by (simp add: play_game_def)
    with popen_Raises [OF Raises] show ?thesis by simp
  next
    case (Returns u1 g1)
    note p1 = this
    show ?thesis
    proof (cases "popen e (g1\<lparr>board := Board e\<rparr>)")
      case (Raises x2 g2)
      with rs p1 have "g = g2" by (simp add: play_game_def)
      with popen_Raises [OF Raises] popen_Returns [OF p1] show ?thesis by simp
    next
      case (Returns u2 g2)
      note p2 = this
      from popen_Returns [OF p1] popen_Returns [OF p2]
      have procs: "processes g2 = [True, True]" by simp
      obtain ok w' where c: "configure e (outside g2) = (ok, w')"
        by (cases "configure e (outside g2)")
      show ?thesis
      proof (cases ok)
        case False
        with rs p1 p2 c have "g = g2\<lparr>outside := w'\<rparr>" by (simp add: play_game_def)
        with procs show ?thesis by simp
      next
        case True
        with rs p1 p2 c
        have "play_loop e fuel (g2\<lparr>outside := w', game_moves := []\<rparr>) = Some (Raises x g)"
          by (auto simp: play_game_def split: option.splits outcome.splits)
        from play_loop_engine [OF this] procs show ?thesis by simp
      qed
    qed
  qed
qed

lemma mini_simps:
  "fen mini_start = ''mini 0''" "turn mini_start = True" "is_game_over mini_start = False"
  "legal_moves mini_start = [mv 12 28]" "legal_moves_contains mini_start m \<longleftrightarrow> m = mv 12 28"
  "fen mini_reply = ''mini 1''" "turn mini_reply = False" "is_game_over mini_reply = False"
  "legal_moves mini_reply = [mv 52 36, mv 52 44]"
  "legal_moves_contains mini_reply m \<longleftrightarrow> m \<in> set [mv 52 36, mv 52 44]"
  "is_game_over mini_over = True" "legal_moves mini_over = []"
  by (simp_all add: mini_start_def mini_reply_def mini_over_def)

lemma demo_env_game_simps:
  "popen_uci (demo_env src) w = (True, w)"
  "configure (demo_env src) w = (True, w)"
  "engine_play (demo_env src) w b = (case legal_moves b of [] \<Rightarrow> None | m # ms \<Rightarrow> Some m, w)"
  "Board (demo_env src) = mini_start"
  "push (demo_env src) = mini_push"
  by (simp_all add: demo_env_def)

lemma gemini_always_hello_mini:
  "get_gemini_move (demo_env always_hello) mini_reply 3 w =
     Returns (mv 52 44)
       \<lparr>prompt = initial_prompt mini_reply @ concat (replicate 6 format_feedback),
        world = w + 3,
        calls = [Generate (initial_prompt mini_reply),
                 Generate (initial_prompt mini_reply @ concat (replicate 2 format_feedback)),
                 Generate (initial_prompt mini_reply @ concat (replicate 4 format_feedback)),
                 RandBelow 2]\<rparr>"
  by (simp add: get_gemini_move_def eval_nat_numeral demo_env_simps always_hello_def
      parse_hello start_negotiation_def except_Exception_def Let_def random_choice_def
      mini_simps)

lemma loop_body_mini_start:
  "loop_body (demo_env src) \<lparr>board = mini_start, game_moves = [], engine = Suc 0,
       processes = [True, True], outside = w\<rparr> =
     Returns () \<lparr>board = mini_reply, game_moves = [mv 12 28], engine = Suc 0,
       processes = [True, True], outside = w\<rparr>"
  by (simp add: loop_body_def demo_env_game_simps mini_simps mini_push_def)

lemma loop_body_mini_reply:
  "loop_body (demo_env always_hello) \<lparr>board = mini_reply, game_moves = [mv 12 28],
       engine = Suc 0, processes = [True, True], outside = w\<rparr> =
     Returns () \<lparr>board = mini_over, game_moves = [mv 12 28, mv 52 44], engine = Suc 0,
       processes = [True, True], outside = w + 3\<rparr>"
  by (simp add: loop_body_def gemini_always_hello_mini demo_env_game_simps mini_simps
      mini_push_def)

lemma play_loop_mini:
  "play_loop (demo_env always_hello) 3
       \<lparr>board = mini_start, game_moves = [], engine = Suc 0, processes = [True, True],
        outside = 0\<rparr> =
     Some (Returns () \<lparr>board = mini_over, game_moves = [mv 12 28, mv 52 44], engine = Suc 0,
       processes = [True, True], outside = 3\<rparr>)"
  by (simp add: numeral_3_eq_3 loop_body_mini_start loop_body_mini_reply mini_simps)

lemma play_game_mini:
  "play_game (demo_env always_hello) 3 0 =
     Some (Returns mini_over \<lparr>board = mini_over, game_moves = [mv 12 28, mv 52 44],
       engine = 1, processes = [True, False], outside = 3\<rparr>)"
  by (simp add: play_game_def popen_def quit_def demo_env_game_simps play_loop_mini)

lemma play_game_crash:
  "play_game crash_env 3 0 =
     Some (Raises EngineError \<lparr>board = starting_board, game_moves = [], engine = 1,
       processes = [True, True], outside = 0\<rparr>)"
proof -
  have sb: "is_game_over starting_board = False" "turn starting_board = True"
    by (simp_all add: starting_board_def)
  have "play_loop crash_env 3
          \<lparr>board = starting_board, game_moves = [], engine = Suc 0, processes = [True, True],
           outside = 0\<rparr> =
        Some (Raises EngineError \<lparr>board = starting_board, game_moves = [], engine = Suc 0,
          processes = [True, True], outside = 0\<rparr>)"
    by (simp add: numeral_3_eq_3 crash_env_def demo_env_def loop_body_def sb)
  moreover have "popen_uci crash_env = (\<lambda>w. (True, w))" "configure crash_env = (\<lambda>w. (True, w))"
    "Board crash_env = starting_board"
    by (simp_all add: crash_env_def demo_env_def)
  ultimately show ?thesis
    by (simp add: play_game_def popen_def)
qed

theorem play_game_engine_quit_witness:
  "play_game (demo_env always_hello) 3 0 =
     Some (Returns mini_over \<lparr>board = mini_over, game_moves = [mv 12 28, mv 52 44],
       engine = 1, processes = [True, False], outside = 3\<rparr>) \<and>
   is_game_over mini_over \<and>
   play_game crash_env 3 0 =
     Some (Raises EngineError \<lparr>board = starting_board, game_moves = [], engine = 1,
       processes = [True, True], outside = 0\<rparr>) \<and>
   False \<notin> set [True, True]"
proof -
  let ?g = "\<lparr>board = mini_over, game_moves = [mv 12 28, mv 52 44],
       engine = 1, processes = [True, False], outside = 3::nat\<rparr>"
  let ?c = "\<lparr>board = starting_board, game_moves = [], engine = 1,
       processes = [True, True], outside = 0::nat\<rparr>"
  from play_game_engine_quit [of "demo_env always_hello" 3 0 mini_over ?g] play_game_mini
  have "is_game_over mini_over" by blast
  moreover from play_game_engine_quit [of crash_env 3 0 _ ?c EngineError] play_game_crash
  have "False \<notin> set [True, True]" by simp
  ultimately show ?thesis using play_game_mini play_game_crash by blast
qed

text \<open>
  C2, as stated, fails: no \<^verbatim>\<open>try\<close> guards the loop. On the starting position, with an
  engine that raises when asked for its first move, the exception leaves
  \<^verbatim>\<open>play_game\<close> while the engine in use is still running.
\<close>

theorem play_game_crash_counterexample:
  "play_game crash_env 3 0 =
     Some (Raises EngineError \<lparr>board = starting_board, game_moves = [], engine = 1,
       processes = [True, True], outside = 0\<rparr>) \<and>
   [True, True] ! 1 = True"
  using play_game_crash by simp

lemma replay_snoc:
  "replay e b (ms @ [m]) =
     (case replay e b ms of
        None \<Rightarrow> None
      | Some b' \<Rightarrow> if legal_moves_contains b' m then Some (push e b' m) else None)"
  by (induction ms arbitrary: b) simp_all

lemma negotiated_on_board_ok:
  assumes "board_ok b" and "\<not> is_game_over b" and "rng_ok e"
  shows "\<exists>m st. get_gemini_move e b retries w = Returns m st \<and> legal_moves_contains b m"
  using assms negotiated_move_legal [of b e retries w] by (simp add: board_ok_def)

lemma loop_body_cases:
  assumes "board_ok (board g)" and "\<not> is_game_over (board g)"
    and "engine_ok e" and "rng_ok e"
  shows "(\<exists>m g'. legal_moves_contains (board g) m \<and>
            (if turn (board g) then fst (engine_play e (outside g) (board g)) = Some m
             else (\<exists>st. get_gemini_move e (board g) 3 (outside g) = Returns m st)) \<and>
            loop_body e g = Returns () g' \<and> board g' = push e (board g) m \<and>
            game_moves g' = game_moves g @ [m]) \<or>
         (turn (board g) \<and> fst (engine_play e (outside g) (board g)) = None \<and>
            (\<exists>g'. loop_body e g = Raises EngineError g' \<and> board g' = board g \<and>
               game_moves g' = game_moves g))"
proof (cases "turn (board g)")
  case True
  obtain r w' where play: "engine_play e (outside g) (board g) = (r, w')"
    by (cases "engine_play e (outside g) (board g)")
  show ?thesis
  proof (cases r)
    case None
    with True play show ?thesis by (simp add: loop_body_def)
  next
    case (Some m)
    with play assms(1,3) have "legal_moves_contains (board g) m"
      unfolding engine_ok_def by (metis fst_conv)
    with True play Some show ?thesis by (simp add: loop_body_def)
  qed
next
  case False
  from negotiated_on_board_ok [OF assms(1,2,4), of 3 "outside g"] obtain m st where
    "get_gemini_move e (board g) 3 (outside g) = Returns m st" "legal_moves_contains (board g) m"
    by blast
  with False show ?thesis by (simp add: loop_body_def)
qed

lemma observed_replay:
  assumes "rules_ok e" and "engine_ok e" and "rng_ok e"
    and "board g0 = Board e" and "game_moves g0 = []" and "observed e g0 g"
  shows "replay e (Board e) (game_moves g) = Some (board g) \<and> board_ok (board g)"
  using assms(6)
proof (induction rule: observed.induct)
  case entry
  from assms(1,4,5) show ?case by (simp add: rules_ok_def)
next
  case (iteration g u g')
  then have inv: "replay e (Board e) (game_moves g) = Some (board g)" "board_ok (board g)"
    by simp_all
  from loop_body_cases [OF inv(2) iteration(2) assms(2,3)] iteration(3)
  obtain m where m: "legal_moves_contains (board g) m" "board g' = push e (board g) m"
    "game_moves g' = game_moves g @ [m]"
    by auto
  from assms(1) inv(2) m(1) have "board_ok (push e (board g) m)"
    unfolding rules_ok_def by blast
  with inv(1) m show ?case by (simp add: replay_snoc)
qed

lemma play_game_Returns_replay:
  assumes "rules_ok e" and "engine_ok e" and "rng_ok e"
    and "play_game e fuel w = Some (Returns b gf)"
  shows "is_game_over b \<and> board gf = b \<and> replay e (Board e) (game_moves gf) = Some b"
proof -
  let ?g0 = "\<lparr>board = Board e, game_moves = [], engine = 0, processes = [], outside = w\<rparr>"
  from assms(4) obtain u1 g1 where p1: "popen e ?g0 = Returns u1 g1"
    by (auto simp: play_game_def split: outcome.splits)
  with assms(4) obtain u2 g2 where p2: "popen e (g1\<lparr>board := Board e\<rparr>) = Returns u2 g2"
    by (auto simp: play_game_def split: outcome.splits)
  with assms(4) p1 obtain w' where c: "configure e (outside g2) = (True, w')"
    by (auto simp: play_game_def split: prod.splits bool.splits)
  let ?g = "g2\<lparr>outside := w', game_moves := []\<rparr>"
  from assms(4) p1 p2 c obtain u gl where
    loop: "play_loop e fuel ?g = Some (Returns u gl)" and gf: "gf = quit gl" and b: "b = board gl"
    by (auto simp: play_game_def split: option.splits outcome.splits)
  from popen_Returns [OF p2] have entry: "board ?g = Board e" "game_moves ?g = []"
    by simp_all
  have "observed e ?g ?g" by (rule observed.entry)
  with loop have "observed e ?g gl" by (rule play_loop_observed)
  from observed_replay [OF assms(1-3) entry this]
  have "replay e (Board e) (game_moves gl) = Some (board gl)" by simp
  with play_loop_Returns [OF loop] gf b show ?thesis by (simp add: quit_def)
qed

text \<open>
  C8. At every observation of the loop test, replaying \<^verbatim>\<open>game_moves\<close> from the starting
  position, each move legal where it is played, gives the board. On a board that is not
  over, an iteration obtains exactly one legal move, from the engine on White's turn and
  from \<^verbatim>\<open>get_gemini_move\<close> on Black's, pushes it and appends it to \<^verbatim>\<open>game_moves\<close>;
  the one other way out of an iteration is the engine raising on White's turn, which leaves
  board and log as they were. The loop ends normally only on a board that is over, and the
  board that \<^verbatim>\<open>play_game\<close> returns is over and is the replay of the moves recorded. The
  rules, the engine and the random draw are taken to keep their contracts.
\<close>

theorem play_game_invariant:
  assumes "rules_ok e" and "engine_ok e" and "rng_ok e"
    and "board g0 = Board e" and "game_moves g0 = []" and "observed e g0 g"
  shows "replay e (Board e) (game_moves g) = Some (board g) \<and>
         (\<not> is_game_over (board g) \<longrightarrow>
            (\<exists>m g'. legal_moves_contains (board g) m \<and>
               (if turn (board g) then fst (engine_play e (outside g) (board g)) = Some m
                else (\<exists>st. get_gemini_move e (board g) 3 (outside g) = Returns m st)) \<and>
               loop_body e g = Returns () g' \<and> board g' = push e (board g) m \<and>
               game_moves g' = game_moves g @ [m]) \<or>
            (turn (board g) \<and> fst (engine_play e (outside g) (board g)) = None \<and>
               (\<exists>g'. loop_body e g = Raises EngineError g' \<and> board g' = board g \<and>
                  game_moves g' = game_moves g))) \<and>
         (\<forall>fuel gf. play_loop e fuel g = Some (Returns () gf) \<longrightarrow>
            is_game_over (board gf) \<and> observed e g0 gf) \<and>
         (\<forall>fuel w b gf. play_game e fuel w = Some (Returns b gf) \<longrightarrow>
            is_game_over b \<and> replay e (Board e) (game_moves gf) = Some b)"
proof -
  from observed_replay [OF assms]
  have inv: "replay e (Board e) (game_moves g) = Some (board g)" "board_ok (board g)"
    by simp_all
  have loop: "\<forall>fuel gf. play_loop e fuel g = Some (Returns () gf) \<longrightarrow>
      is_game_over (board gf) \<and> observed e g0 gf"
    using play_loop_Returns play_loop_observed [OF _ assms(6)] by blast
  have game: "\<forall>fuel w b gf. play_game e fuel w = Some (Returns b gf) \<longrightarrow>
      is_game_over b \<and> replay e (Board e) (game_moves gf) = Some b"
    using play_game_Returns_replay [OF assms(1-3)] by blast
  from inv(1) loop_body_cases [OF inv(2) _ assms(2,3)] loop game show ?thesis by blast
qed

lemma board_ok_mini: "board_ok mini_start" "board_ok mini_reply" "board_ok mini_over"
  by (simp_all add: board_ok_def mini_start_def mini_reply_def mini_over_def)

lemma rules_ok_demo_env: "rules_ok (demo_env src)"
  by (simp add: rules_ok_def demo_env_game_simps mini_push_def board_ok_mini)

lemma engine_ok_demo_env: "engine_ok (demo_env src)"
  by (auto simp: engine_ok_def demo_env_game_simps board_ok_def split: list.splits)

theorem play_game_invariant_witness:
  "rules_ok (demo_env always_hello) \<and> engine_ok (demo_env always_hello) \<and>
   rng_ok (demo_env always_hello) \<and>
   observed (demo_env always_hello)
     \<lparr>board = mini_start, game_moves = [], engine = Suc 0, processes = [True, True],
      outside = 0\<rparr>
     \<lparr>board = mini_reply, game_moves = [mv 12 28], engine = Suc 0, processes = [True, True],
      outside = 0\<rparr> \<and>
   replay (demo_env always_hello) mini_start [mv 12 28] = Some mini_reply \<and>
   loop_body (demo_env always_hello)
     \<lparr>board = mini_reply, game_moves = [mv 12 28], engine = Suc 0, processes = [True, True],
      outside = 0\<rparr> =
     Returns () \<lparr>board = mini_over, game_moves = [mv 12 28, mv 52 44], engine = Suc 0,
       processes = [True, True], outside = 3\<rparr>"
proof -
  let ?e = "demo_env always_hello"
  let ?g0 = "\<lparr>board = mini_start, game_moves = [], engine = Suc 0, processes = [True, True],
      outside = 0::nat\<rparr>"
  let ?g1 = "\<lparr>board = mini_reply, game_moves = [mv 12 28], engine = Suc 0,
      processes = [True, True], outside = 0::nat\<rparr>"
  have h1: "rules_ok ?e" by (rule rules_ok_demo_env)
  have h2: "engine_ok ?e" by (rule engine_ok_demo_env)
  have h3: "rng_ok ?e" by (rule rng_ok_demo_env)
  have h4: "board ?g0 = Board ?e" by (simp add: demo_env_game_simps)
  have h5: "game_moves ?g0 = []" by simp
  have "observed ?e ?g0 ?g0" by (rule observed.entry)
  moreover have "\<not> is_game_over (board ?g0)" by (simp add: mini_simps)
  ultimately have h6: "observed ?e ?g0 ?g1"
    using loop_body_mini_start by (rule observed.iteration)
  from play_game_invariant [OF h1 h2 h3 h4 h5 h6]
  have "replay ?e mini_start [mv 12 28] = Some mini_reply"
    by (simp add: demo_env_game_simps)
  moreover have "loop_body ?e ?g1 =
     Returns () \<lparr>board = mini_over, game_moves = [mv 12 28, mv 52 44], engine = Suc 0,
       processes = [True, True], outside = 3\<rparr>"
    using loop_body_mini_reply [of 0] by simp
  ultimately show ?thesis using h1 h2 h3 h6 by blast
qed

subsection \<open>The archiver\<close>

lemma isdigit_digit: "n < 10 \<Longrightarrow> isdigit (digit n)"
  by (simp add: isdigit_def digit_def)

lemma isdigit_zero: "isdigit (CHR ''0'')"
  by (simp add: isdigit_def)

lemma decimal_digits: "list_all isdigit (decimal n)"
proof (induction n rule: decimal.induct)
  case (1 n)
  show ?case
  proof (cases "n < 10")
    case True
    then show ?thesis by (simp add: decimal.simps [of n] isdigit_digit)
  next
    case False
    with 1 show ?thesis by (simp add: decimal.simps [of n] isdigit_digit)
  qed
qed

lemma decimal_length: "n < 10 ^ k \<Longrightarrow> 0 < k \<Longrightarrow> length (decimal n) \<le> k"
proof (induction n arbitrary: k rule: decimal.induct)
  case (1 n)
  show ?case
  proof (cases "n < 10")
    case True
    with 1(3) show ?thesis by (simp add: decimal.simps [of n])
  next
    case False
    then obtain j where k: "k = Suc j" using 1(3) by (cases k) simp_all
    from False 1(2) k have "0 < j" by (cases j) simp_all
    moreover from 1(2) k have "n div 10 < 10 ^ j" by (simp add: less_mult_imp_div_less mult.commute)
    ultimately have "length (decimal (n div 10)) \<le> j" using 1(1) [OF False] by simp
    with False k show ?thesis by (simp add: decimal.simps [of n])
  qed
qed

lemma zfill_digits: "list_all isdigit s \<Longrightarrow> list_all isdigit (zfill w s)"
  by (auto simp: zfill_def list_all_iff isdigit_zero)

lemma zfill_length: "length s \<le> w \<Longrightarrow> length (zfill w s) = w"
  by (simp add: zfill_def)

lemma strftime_shape:
  assumes "date_ok d"
  shows "YYYY_MM_DD (strftime d)"
proof -
  let ?y = "zfill 4 (decimal (year d))"
  let ?m = "zfill 2 (decimal (month d))"
  let ?d = "zfill 2 (decimal (day d))"
  from assms have "year d < 10 ^ 4" "month d < 10 ^ 2" "day d < 10 ^ 2"
    by (simp_all add: date_ok_def)
  then have len: "length ?y = 4" "length ?m = 2" "length ?d = 2"
    by (simp_all add: zfill_length decimal_length)
  have dig: "list_all isdigit ?y" "list_all isdigit ?m" "list_all isdigit ?d"
    by (simp_all add: zfill_digits decimal_digits)
  have s: "strftime d = ?y @ ''.'' @ ?m @ ''.'' @ ?d" by (simp add: strftime_def)
  have "length (strftime d) = 10" using len by (simp add: s)
  moreover have "take 4 (strftime d) = ?y" using len by (simp add: s)
  moreover have "strftime d ! 4 = CHR ''.''" using len by (simp add: s nth_append)
  moreover have "List.drop 5 (strftime d) = ?m @ ''.'' @ ?d" using len by (simp add: s)
  then have "take 2 (List.drop 5 (strftime d)) = ?m" using len by simp
  moreover have "strftime d ! 7 = CHR ''.''" using len by (simp add: s nth_append)
  moreover have "List.drop 8 (strftime d) = ?d" using len by (simp add: s)
  ultimately show ?thesis using dig by (simp add: YYYY_MM_DD_def)
qed

lemma headers_pgn_game_of:
  "headers (pgn_game_of a b) ''Event'' = Some ''Cyberchess Dojo''"
  "headers (pgn_game_of a b) ''White'' = Some ''Stockfish Level 5''"
  "headers (pgn_game_of a b) ''Black'' = Some ''Gemini 1.5 Flash''"
  "headers (pgn_game_of a b) ''Date'' = Some (strftime (now a))"
  by (simp_all add: pgn_game_of_def Let_def)

text \<open>
  C9. \<^verbatim>\<open>save_game_data\<close> builds the whole record, then, unless the file cannot be opened,
  sets \<^verbatim>\<open>training_data.pgn\<close> to its previous content (empty if the file was absent)
  followed by that one record and two newlines; no other file changes, and when the file
  cannot be opened nothing changes. The game exported carries the headers Event, White,
  Black and Date, the date in the shape \<^verbatim>\<open>YYYY.MM.DD\<close>.
\<close>

theorem save_game_data_appends:
  assumes "date_ok (now a)"
  shows "save_game_data a b f =
           (if ''training_data.pgn'' \<in> unwritable f then Raises OSError f
            else Returns ()
              (f\<lparr>files := (files f)(''training_data.pgn'' \<mapsto>
                   content f ''training_data.pgn'' @ str a (pgn_game_of a b) @
                   [CHR 0x0A, CHR 0x0A])\<rparr>)) \<and>
         (files f ''training_data.pgn'' = None \<longrightarrow> content f ''training_data.pgn'' = []) \<and>
         headers (pgn_game_of a b) ''Event'' = Some ''Cyberchess Dojo'' \<and>
         headers (pgn_game_of a b) ''White'' = Some ''Stockfish Level 5'' \<and>
         headers (pgn_game_of a b) ''Black'' = Some ''Gemini 1.5 Flash'' \<and>
         headers (pgn_game_of a b) ''Date'' = Some (strftime (now a)) \<and>
         YYYY_MM_DD (strftime (now a))"
proof -
  have "save_game_data a b f =
           (if ''training_data.pgn'' \<in> unwritable f then Raises OSError f
            else Returns ()
              (f\<lparr>files := (files f)(''training_data.pgn'' \<mapsto>
                   content f ''training_data.pgn'' @ str a (pgn_game_of a b) @
                   [CHR 0x0A, CHR 0x0A])\<rparr>))"
    by (simp add: save_game_data_def open_a_def file_write_def content_def Let_def)
  moreover have "files f ''training_data.pgn'' = None \<longrightarrow> content f ''training_data.pgn'' = []"
    by (simp add: content_def)
  ultimately show ?thesis
    using strftime_shape [OF assms] by (simp add: headers_pgn_game_of)
qed

lemma demo_date: "strftime (now demo_archive) = ''2026.11.03''"
  by code_simp

theorem save_game_data_appends_witness:
  "date_ok (now demo_archive) \<and>
   strftime (now demo_archive) = ''2026.11.03'' \<and> YYYY_MM_DD ''2026.11.03'' \<and>
   save_game_data demo_archive endgame archive_before =
     Returns ()
       \<lparr>files = [''training_data.pgn'' \<mapsto>
          ''earlier games'' @ str demo_archive (pgn_game_of demo_archive endgame) @
          [CHR 0x0A, CHR 0x0A]],
        unwritable = {}\<rparr>"
proof -
  have h: "date_ok (now demo_archive)" by (simp add: date_ok_def demo_archive_def)
  from save_game_data_appends [OF h, of endgame archive_before] h demo_date show ?thesis
    by (simp add: archive_before_def content_def)
qed

end
